theory Spec2Isabelle
  imports Main "HOL-Library.Sublist"
begin

section \<open>The prime-search workload of joule-profiler (examples/programs/workload.py)\<close>

text \<open>
  The program is one Python script: \<^verbatim>\<open>find_primes(limit)\<close>, a trial-division prime search,
  and \<^verbatim>\<open>main()\<close>, which parses one option, prints two marker lines around the search
  and a summary line after it. Python integers are unbounded and are modelled as \<^typ>\<open>int\<close>;
  exceptions are values of the type \<open>error\<close>, returned on the left of a sum.
\<close>

subsection \<open>Errors\<close>

text \<open>
  The two exceptions the expression \<^verbatim>\<open>int(num ** 0.5)\<close> can raise: the integer is too large
  for a double (\<^verbatim>\<open>OverflowError: int too large to convert to float\<close>), or the power is a
  complex number, which \<^verbatim>\<open>int()\<close> refuses (\<^verbatim>\<open>TypeError\<close>).
\<close>

datatype error = OverflowError | TypeError

subsection \<open>Double-precision numbers\<close>

text \<open>
  A finite double is a sign, a mantissa and a binary exponent; its value is
  \<open>mant * 2 ^ expo\<close>, negated when \<open>negative\<close> holds. The doubles that occur here have a
  mantissa of at most 53 bits (\<open>mant \<le> 2 ^ 53\<close>).
\<close>

record double =
  negative :: bool
  mant :: nat
  expo :: int

text \<open>\<^verbatim>\<open>int.bit_length()\<close>: the number of binary digits of a natural number.\<close>

fun bit_length :: "nat \<Rightarrow> nat" where
  "bit_length n = (if n = 0 then 0 else bit_length (n div 2) + 1)"

declare bit_length.simps [simp del]

text \<open>
  The integer square root by binary digits: the root of \<open>n div 4\<close>, doubled, is the root of
  \<open>n\<close> but for its last bit.
\<close>

fun isqrt :: "nat \<Rightarrow> nat" where
  "isqrt n =
     (if n = 0 then 0
      else let r = 2 * isqrt (n div 4)
           in if (r + 1) * (r + 1) \<le> n then r + 1 else r)"

declare isqrt.simps [simp del]

text \<open>
  \<open>a / 2 ^ sh\<close> rounded to the nearest integer, a tie going to the even neighbour: the
  rounding mode of every conversion to a double.
\<close>

definition round_half_even :: "nat \<Rightarrow> nat \<Rightarrow> nat" where
  "round_half_even a sh =
     (let q = a div 2 ^ sh; r = a mod 2 ^ sh
      in if 2 ^ sh < 2 * r \<or> (2 * r = 2 ^ sh \<and> odd q) then q + 1 else q)"

text \<open>
  The conversion of a Python integer to a double, which \<^verbatim>\<open>num ** 0.5\<close> performs on its left
  operand: the integer is rounded to 53 significant bits, and the conversion raises
  \<^verbatim>\<open>OverflowError\<close> when the rounded value is \<open>2 ^ 1024\<close> or more.
\<close>

definition float_of_int :: "int \<Rightarrow> error + double" where
  "float_of_int n =
     (let a = nat \<bar>n\<bar>; sh = bit_length a - 53; m = round_half_even a sh
      in if 2 ^ 1024 \<le> m * 2 ^ sh then Inl OverflowError
         else Inr \<lparr>negative = n < 0, mant = m, expo = int sh\<rparr>)"

text \<open>
  \<^verbatim>\<open>x ** 0.5\<close> on a double. Python hands the operation to the C library's \<^verbatim>\<open>pow\<close>, which is
  not part of the repository and is not correctly rounded: which of the two doubles next to
  the exact root it returns differs between libraries, and is a parameter of the model. A
  \<open>rounding\<close> says, for each argument, whether \<^verbatim>\<open>pow\<close> returns the double above the exact
  root (\<open>True\<close>) or the one below it (\<open>False\<close>). What is taken from the library is that
  its error is below one unit in the last place: the result is one of these two doubles,
  and the root itself when the root is a double.

  The mantissa of the result is the root of the argument scaled to 105 or 106 bits: its
  integer part \<open>s\<close>, or \<open>s + 1\<close> when the root is not an integer and the library rounds
  up. A negative base gives a complex number: \<open>None\<close>.
\<close>

type_synonym rounding = "double \<Rightarrow> bool"

definition float_pow_half :: "rounding \<Rightarrow> double \<Rightarrow> double option" where
  "float_pow_half rnd x =
     (if mant x = 0 then Some \<lparr>negative = False, mant = 0, expo = 0\<rparr>
      else if negative x then None
      else let e = (int (bit_length (mant x)) + expo x - 105) div 2;
               y = mant x * 2 ^ nat (expo x - 2 * e);
               s = isqrt y
           in Some \<lparr>negative = False, mant = (if s * s < y \<and> rnd x then s + 1 else s),
                expo = e\<rparr>)"

text \<open>
  One rounding: to the nearest double, as the square root of IEEE 754 is rounded. The
  scaled root is nearer to \<open>s + 1\<close> when the scaled argument is above \<open>s * s + s\<close>, the
  greatest integer below \<open>(s + 1/2)\<^sup>2\<close>; a tie cannot occur.
\<close>

definition round_to_nearest :: rounding where
  "round_to_nearest x =
     (let e = (int (bit_length (mant x)) + expo x - 105) div 2;
          y = mant x * 2 ^ nat (expo x - 2 * e);
          s = isqrt y
      in s * s + s < y)"

text \<open>\<^verbatim>\<open>int(x)\<close> on a double: truncation towards zero.\<close>

definition int_of_float :: "double \<Rightarrow> int" where
  "int_of_float x =
     (let v = (if 0 \<le> expo x then int (mant x) * 2 ^ nat (expo x)
               else int (mant x) div 2 ^ nat (- expo x))
      in if negative x then - v else v)"

text \<open>The expression \<^verbatim>\<open>int(num ** 0.5)\<close> of the inner loop's bound.\<close>

definition int_pow_half :: "rounding \<Rightarrow> int \<Rightarrow> error + int" where
  "int_pow_half rnd num =
     (case float_of_int num of
        Inl e \<Rightarrow> Inl e
      | Inr x \<Rightarrow>
          (case float_pow_half rnd x of
             None \<Rightarrow> Inl TypeError
           | Some y \<Rightarrow> Inr (int_of_float y)))"

subsection \<open>find\_primes\<close>

text \<open>\<^verbatim>\<open>range(a, b)\<close>: the integers from \<open>a\<close> up to, and without, \<open>b\<close>; empty when \<open>b \<le> a\<close>.\<close>

definition py_range :: "int \<Rightarrow> int \<Rightarrow> int list" where
  "py_range a b = [a..b - 1]"

text \<open>
  The inner loop, over the divisors still to try; its value is \<^verbatim>\<open>is_prime\<close> when the loop
  is left, by \<^verbatim>\<open>break\<close> or at the end of the range. The divisors are at least 2, so
  \<^verbatim>\<open>num % i\<close> never divides by zero, and Python's \<^verbatim>\<open>%\<close> is \<open>mod\<close> on \<^typ>\<open>int\<close>.
\<close>

fun inner_loop :: "int \<Rightarrow> int list \<Rightarrow> bool" where
  "inner_loop num [] = True"
| "inner_loop num (i # rest) = (if num mod i = 0 then False else inner_loop num rest)"

text \<open>
  The outer loop, over the candidates still to test; \<open>found\<close> is the list \<^verbatim>\<open>primes\<close> built
  so far. An exception raised by the bound of the inner loop leaves the function.
\<close>

fun outer_loop :: "rounding \<Rightarrow> int list \<Rightarrow> int list \<Rightarrow> error + int list" where
  "outer_loop rnd [] found = Inr found"
| "outer_loop rnd (num # rest) found =
     (case int_pow_half rnd num of
        Inl e \<Rightarrow> Inl e
      | Inr r \<Rightarrow>
          outer_loop rnd rest
            (if inner_loop num (py_range 2 (r + 1)) then found @ [num] else found))"

definition find_primes :: "rounding \<Rightarrow> int \<Rightarrow> error + int list" where
  "find_primes rnd limit = outer_loop rnd (py_range 2 limit) []"

subsection \<open>The same function on an explicit store\<close>

text \<open>
  What the process has written to standard output, and the two variables of
  \<^verbatim>\<open>find_primes\<close> that are assigned to: every statement of the function is a function on
  this store, so that what the function leaves alone is visible.
\<close>

datatype event = Write string | Flush

record state =
  stdout :: "event list"
  primes :: "int list"
  is_prime :: bool




subsection \<open>Loop iterations\<close>



subsection \<open>main\<close>











subsection \<open>What the claims are stated with\<close>

text \<open>A prime number: greater than 1, with no positive divisor but 1 and itself.\<close>

definition prime_number :: "int \<Rightarrow> bool" where
  "prime_number p \<longleftrightarrow> 1 < p \<and> (\<forall>d. 0 < d \<and> d dvd p \<longrightarrow> d = 1 \<or> d = p)"




subsection \<open>A table of small primes and Legendre's count\<close>

text \<open>
  Auxiliary functions, used to decide primality of numbers below \<open>227\<^sup>2\<close> and to count the
  primes below a bound without testing every number: the primes up to 223, tests of a
  number against the table, and Legendre's recursion for the count of the numbers up to
  \<open>x\<close> that no prime of a list divides.
\<close>

definition small_primes :: "int list" where
  "small_primes = [2, 3, 5, 7, 11, 13, 17, 19, 23, 29, 31, 37, 41, 43, 47, 53, 59, 61, 67, 71,
     73, 79, 83, 89, 97, 101, 103, 107, 109, 113, 127, 131, 137, 139, 149, 151, 157, 163, 167,
     173, 179, 181, 191, 193, 197, 199, 211, 223]"

fun ascending :: "int list \<Rightarrow> bool" where
  "ascending [] = True"
| "ascending [p] = True"
| "ascending (p # q # ps) = (if p < q then ascending (q # ps) else False)"

fun has_factor_in :: "int \<Rightarrow> int list \<Rightarrow> bool" where
  "has_factor_in n [] = False"
| "has_factor_in n (p # ps) = (if n mod p = 0 then True else has_factor_in n ps)"

fun all_have_factor :: "int list \<Rightarrow> int list \<Rightarrow> bool" where
  "all_have_factor [] ps = True"
| "all_have_factor (n # ns) ps = (if has_factor_in n ps then all_have_factor ns ps else False)"

fun no_factor_in :: "int \<Rightarrow> int list \<Rightarrow> bool" where
  "no_factor_in n [] = True"
| "no_factor_in n (p # ps) =
     (if n < p * p then True else if n mod p = 0 then False else no_factor_in n ps)"

fun all_no_factor :: "int list \<Rightarrow> int list \<Rightarrow> bool" where
  "all_no_factor [] ps = True"
| "all_no_factor (n # ns) ps = (if no_factor_in n ps then all_no_factor ns ps else False)"

fun phi :: "int \<Rightarrow> int list \<Rightarrow> int" where
  "phi x [] = x"
| "phi x (p # ps) = (if x < p then x else phi x ps - phi (x div p) ps)"

definition unsieved :: "int \<Rightarrow> int list \<Rightarrow> int set" where
  "unsieved x ps = {n. 1 \<le> n \<and> n \<le> x \<and> (\<forall>q\<in>set ps. \<not> q dvd n)}"

section \<open>Properties\<close>

subsection \<open>Bit lengths and integer square roots\<close>

lemma bit_length_le: "n < 2 ^ k \<Longrightarrow> bit_length n \<le> k"
proof (induction k arbitrary: n)
  case 0
  then show ?case by (simp add: bit_length.simps)
next
  case (Suc k)
  show ?case
  proof (cases "n = 0")
    case True
    then show ?thesis by (simp add: bit_length.simps)
  next
    case False
    from Suc.prems have "n div 2 < 2 ^ k" by simp
    then have "bit_length (n div 2) \<le> k" by (rule Suc.IH)
    with False show ?thesis by (subst bit_length.simps) simp
  qed
qed

lemma isqrt_bounds: "isqrt n * isqrt n \<le> n \<and> n < (isqrt n + 1) * (isqrt n + 1)"
proof (induction n rule: isqrt.induct)
  case (1 n)
  show ?case
  proof (cases "n = 0")
    case True
    then show ?thesis by (simp add: isqrt.simps)
  next
    case False
    define r0 where "r0 = isqrt (n div 4)"
    from "1.IH" [OF False] have lo: "r0 * r0 \<le> n div 4" and hi: "n div 4 < (r0 + 1) * (r0 + 1)"
      by (simp_all add: r0_def)
    have a: "(2 * r0) * (2 * r0) \<le> n"
    proof -
      have "4 * (r0 * r0) \<le> 4 * (n div 4)" using lo by simp
      also have "\<dots> \<le> n" by simp
      finally show ?thesis by (simp add: algebra_simps)
    qed
    have b: "n < (2 * r0 + 2) * (2 * r0 + 2)"
    proof -
      from hi have "n div 4 + 1 \<le> (r0 + 1) * (r0 + 1)" by simp
      then have "4 * (n div 4 + 1) \<le> 4 * ((r0 + 1) * (r0 + 1))" by simp
      moreover have "n < 4 * (n div 4 + 1)" by simp
      ultimately show ?thesis by (simp add: algebra_simps)
    qed
    have eq: "isqrt n = (if (2 * r0 + 1) * (2 * r0 + 1) \<le> n then 2 * r0 + 1 else 2 * r0)"
      using False by (subst isqrt.simps) (simp add: r0_def Let_def)
    show ?thesis
    proof (cases "(2 * r0 + 1) * (2 * r0 + 1) \<le> n")
      case True
      with eq b show ?thesis by (simp add: algebra_simps)
    next
      case False
      with eq a show ?thesis by simp
    qed
  qed
qed

lemma square_less_imp_less: "(a::nat) * a < b * b \<Longrightarrow> a < b"
  by (metis mult_le_mono not_less)

lemma isqrt_unique:
  assumes "s * s \<le> n" and "n < (s + 1) * (s + 1)"
  shows "isqrt n = s"
proof -
  from isqrt_bounds [of n] have lo: "isqrt n * isqrt n \<le> n" and hi: "n < (isqrt n + 1) * (isqrt n + 1)"
    by simp_all
  from lo assms(2) have "isqrt n * isqrt n < (s + 1) * (s + 1)" by simp
  then have "isqrt n < s + 1" by (rule square_less_imp_less)
  moreover from assms(1) hi have "s * s < (isqrt n + 1) * (isqrt n + 1)" by simp
  then have "s < isqrt n + 1" by (rule square_less_imp_less)
  ultimately show ?thesis by simp
qed

text \<open>The rounded root of a scaled argument, cut back to an integer, is the integer root.\<close>

text \<open>
  The root of a scaled argument, rounded down or up to an integer mantissa and cut back to
  an integer: between the integer root and its successor, and the integer root itself when
  the scale is fine enough.
\<close>

lemma rounded_root_bounds:
  fixes n j :: nat and up :: bool
  defines "y \<equiv> n * (2 ^ j * 2 ^ j)"
  defines "s \<equiv> isqrt y"
  defines "m \<equiv> (if s * s < y \<and> up then s + 1 else s)"
  shows "isqrt n * 2 ^ j \<le> m" and "m \<le> (isqrt n + 1) * 2 ^ j"
    and "2 * (isqrt n + 1) \<le> 2 ^ j \<Longrightarrow> m < (isqrt n + 1) * 2 ^ j"
proof -
  define t where "t = isqrt n"
  define U where "U = (t + 1) * 2 ^ j"
  from isqrt_bounds [of n] have tlo: "t * t \<le> n" and thi: "n + 1 \<le> (t + 1) * (t + 1)"
    by (simp_all add: t_def)
  from isqrt_bounds [of y] have slo: "s * s \<le> y" and shi: "y < (s + 1) * (s + 1)"
    by (simp_all add: s_def)
  have "(t * 2 ^ j) * (t * 2 ^ j) = (t * t) * (2 ^ j * 2 ^ j)" by (simp add: algebra_simps)
  also have "\<dots> \<le> y" unfolding y_def using tlo by (rule mult_le_mono1)
  also note shi
  finally have "t * 2 ^ j < s + 1" by (rule square_less_imp_less)
  then have lower: "t * 2 ^ j \<le> s" by simp
  have sm: "s \<le> m" and ms: "m \<le> s + 1" by (simp_all add: m_def)
  from lower sm show "isqrt n * 2 ^ j \<le> m" by (simp add: t_def)
  have ybound: "y + 2 ^ j * 2 ^ j \<le> U * U"
  proof -
    have "y + 2 ^ j * 2 ^ j = (n + 1) * (2 ^ j * 2 ^ j)" by (simp add: y_def algebra_simps)
    also have "\<dots> \<le> ((t + 1) * (t + 1)) * (2 ^ j * 2 ^ j)" using thi by (rule mult_le_mono1)
    also have "\<dots> = U * U" by (simp add: U_def algebra_simps)
    finally show ?thesis .
  qed
  have pos: "(0::nat) < 2 ^ j * 2 ^ j" by simp
  from ybound pos have "y < U * U" by linarith
  with slo have "s * s < U * U" by simp
  then have sU: "s < U" by (rule square_less_imp_less)
  with ms have "m \<le> U" by simp
  then show "m \<le> (isqrt n + 1) * 2 ^ j" by (simp add: U_def t_def)
  show "m < (isqrt n + 1) * 2 ^ j" if fine: "2 * (isqrt n + 1) \<le> 2 ^ j"
  proof -
    have "m \<noteq> U"
    proof
      assume mU: "m = U"
      with sU have up: "s * s < y" and eq: "s + 1 = U" by (simp_all add: m_def split: if_splits)
      have "U * U = s * s + 2 * s + 1" by (simp add: eq [symmetric] algebra_simps)
      with ybound up have "2 ^ j * 2 ^ j < 2 * s + 1" by linarith
      also have "\<dots> < 2 * U" using eq by simp
      also have "\<dots> = (2 * (t + 1)) * 2 ^ j" by (simp add: U_def)
      finally have "(2::nat) ^ j < 2 * (t + 1)" unfolding mult_less_cancel2 by simp
      with fine show False by (simp add: t_def)
    qed
    with \<open>m \<le> U\<close> show ?thesis by (simp add: U_def t_def)
  qed
qed

lemma rounded_root_floor:
  fixes n j :: nat
  assumes "2 * (isqrt n + 1) \<le> 2 ^ j"
  shows "(let y = n * (2 ^ j * 2 ^ j); s = isqrt y
          in if s * s < y \<and> up then s + 1 else s) div 2 ^ j = isqrt n"
proof -
  from rounded_root_bounds(1) [of n j up] rounded_root_bounds(3) [of n j up, OF assms]
  show ?thesis by (simp add: Let_def div_nat_eqI algebra_simps)
qed

lemma rounded_root_near:
  fixes n j :: nat and up :: bool
  defines "r \<equiv> (let y = n * (2 ^ j * 2 ^ j); s = isqrt y
          in if s * s < y \<and> up then s + 1 else s) div 2 ^ j"
  shows "isqrt n \<le> r" and "r \<le> isqrt n + 1"
proof -
  define m where "m = (let y = n * (2 ^ j * 2 ^ j); s = isqrt y
          in if s * s < y \<and> up then s + 1 else s)"
  from rounded_root_bounds(1,2) [of n j up]
  have lo: "isqrt n * 2 ^ j \<le> m" and hi: "m \<le> (isqrt n + 1) * 2 ^ j"
    by (simp_all add: m_def Let_def)
  from lo have "(isqrt n * 2 ^ j) div 2 ^ j \<le> m div 2 ^ j" by (rule div_le_mono)
  then show "isqrt n \<le> r" by (simp add: r_def m_def)
  from hi have "m div 2 ^ j \<le> ((isqrt n + 1) * 2 ^ j) div 2 ^ j" by (rule div_le_mono)
  then show "r \<le> isqrt n + 1" by (simp add: r_def m_def)
qed

subsection \<open>The square root of an integer below \<open>2 ^ 53\<close>, whatever the rounding\<close>

lemma round_half_even_0: "round_half_even a 0 = a"
  by (simp add: round_half_even_def)

lemma float_of_int_exact:
  assumes "0 \<le> n" and "n < 2 ^ 53"
  shows "float_of_int n = Inr \<lparr>negative = False, mant = nat n, expo = 0\<rparr>"
proof -
  from assms have "nat n < 2 ^ 53" by (simp add: nat_less_iff)
  then have b: "bit_length (nat n) \<le> 53" by (rule bit_length_le)
  from \<open>nat n < 2 ^ 53\<close> have "nat n < 2 ^ 1024"
    by (rule less_trans) simp
  then have "\<not> (2::nat) ^ 1024 \<le> nat n" by simp
  with assms b show ?thesis
    by (simp add: float_of_int_def Let_def round_half_even_0)
qed

lemma isqrt_less_pow2:
  assumes "n < 2 ^ (2 * k)"
  shows "isqrt n < 2 ^ k"
proof -
  from isqrt_bounds [of n] have "isqrt n * isqrt n \<le> n" by simp
  also note assms
  also have "(2::nat) ^ (2 * k) = 2 ^ k * 2 ^ k" by (simp add: power_add mult_2)
  finally show ?thesis by (rule square_less_imp_less)
qed

lemma int_pow_half_small:
  assumes "0 \<le> n" and "n < 2 ^ 53"
  shows "\<exists>r. int_pow_half rnd n = Inr r \<and> int (isqrt (nat n)) \<le> r \<and> r \<le> int (isqrt (nat n)) + 1 \<and>
    (n < 2 ^ 52 \<longrightarrow> r = int (isqrt (nat n)))"
proof (cases "n = 0")
  case True
  have "float_of_int 0 = Inr \<lparr>negative = False, mant = 0, expo = 0\<rparr>"
    using float_of_int_exact [of 0] by simp
  then show ?thesis
    using True by (simp add: int_pow_half_def float_pow_half_def int_of_float_def isqrt.simps)
next
  case False
  define a where "a = nat n"
  from assms False have a: "0 < a" "a < 2 ^ 53" by (simp_all add: a_def nat_less_iff)
  from a(2) have b: "bit_length a \<le> 53" by (rule bit_length_le)
  define e where "e = (int (bit_length a) - 105) div 2"
  define j where "j = nat (- e)"
  from b have e: "e \<le> - 26" unfolding e_def by linarith
  then have ej: "e = - int j" by (simp add: j_def)
  have sh: "nat (- (2 * e)) = j + j" using e by (simp add: j_def)
  define x where "x = \<lparr>negative = False, mant = a, expo = 0\<rparr>"
  define m where "m = (let y = a * (2 ^ j * 2 ^ j); s = isqrt y
      in if s * s < y \<and> rnd x then s + 1 else s)"
  define r where "r = m div 2 ^ j"
  have near: "isqrt a \<le> r" "r \<le> isqrt a + 1"
    unfolding r_def m_def by (rule rounded_root_near)+
  have exact: "r = isqrt a" if "n < 2 ^ 52"
  proof -
    from that have a52: "a < 2 ^ 52" by (simp add: a_def nat_less_iff)
    then have "bit_length a \<le> 52" by (rule bit_length_le)
    then have "e \<le> - 27" unfolding e_def by linarith
    then have "27 \<le> j" by (simp add: j_def)
    from a52 have "isqrt a < 2 ^ 26" using isqrt_less_pow2 [of a 26] by simp
    then have "2 * (isqrt a + 1) \<le> 2 ^ 27" by simp
    also have "(2::nat) ^ 27 \<le> 2 ^ j" using \<open>27 \<le> j\<close> by (intro power_increasing) simp_all
    finally show ?thesis unfolding r_def m_def by (rule rounded_root_floor)
  qed
  from assms have fl: "float_of_int n = Inr x"
    unfolding a_def x_def by (intro float_of_int_exact) simp_all
  have pw: "float_pow_half rnd x = Some \<lparr>negative = False, mant = m, expo = e\<rparr>"
    using a(1) by (simp add: float_pow_half_def Let_def x_def [symmetric] m_def)
      (simp add: x_def e_def [symmetric] sh power_add)
  have "int_of_float \<lparr>negative = False, mant = m, expo = e\<rparr> = int m div 2 ^ j"
    using e by (simp add: int_of_float_def j_def)
  also have "\<dots> = int r" by (simp add: zdiv_int r_def)
  finally have val: "int_pow_half rnd n = Inr (int r)"
    using fl pw by (simp add: int_pow_half_def)
  from near exact val show ?thesis by (simp add: a_def)
qed

lemma int_pow_half_exact:
  assumes "0 \<le> n" and "n < 2 ^ 52"
  shows "int_pow_half rnd n = Inr (int (isqrt (nat n)))"
  using int_pow_half_small [of n rnd] assms by auto

subsection \<open>Trial division\<close>

lemma set_py_range: "set (py_range a b) = {a..<b}"
  by (auto simp: py_range_def)

lemma inner_loop_iff: "inner_loop num ds \<longleftrightarrow> (\<forall>i\<in>set ds. num mod i \<noteq> 0)"
  by (induction ds) simp_all

lemma le_isqrt_iff: "i \<le> isqrt n \<longleftrightarrow> i * i \<le> n"
proof
  assume "i \<le> isqrt n"
  then have "i * i \<le> isqrt n * isqrt n" by (simp add: mult_le_mono)
  also from isqrt_bounds [of n] have "\<dots> \<le> n" by simp
  finally show "i * i \<le> n" .
next
  assume "i * i \<le> n"
  also from isqrt_bounds [of n] have "n < (isqrt n + 1) * (isqrt n + 1)" by simp
  finally have "i < isqrt n + 1" by (rule square_less_imp_less)
  then show "i \<le> isqrt n" by simp
qed

lemma int_le_isqrt_iff:
  assumes "0 \<le> i" and "0 \<le> n"
  shows "i \<le> int (isqrt (nat n)) \<longleftrightarrow> i * i \<le> n"
proof -
  have "i \<le> int (isqrt (nat n)) \<longleftrightarrow> nat i \<le> isqrt (nat n)"
    using assms by (simp add: nat_le_iff)
  also have "\<dots> \<longleftrightarrow> nat i * nat i \<le> nat n" by (rule le_isqrt_iff)
  also have "\<dots> \<longleftrightarrow> i * i \<le> n"
    using assms by (simp add: nat_mult_distrib [symmetric] nat_le_eq_zle)
  finally show ?thesis .
qed

text \<open>Trial division up to the integer square root decides primality.\<close>

lemma trial_division_prime:
  assumes n: "2 \<le> n"
  shows "(\<forall>i\<in>{2..int (isqrt (nat n))}. n mod i \<noteq> 0) \<longleftrightarrow> prime_number n"
proof
  assume nodiv: "\<forall>i\<in>{2..int (isqrt (nat n))}. n mod i \<noteq> 0"
  have "d = 1 \<or> d = n" if d: "0 < d" "d dvd n" for d
  proof (rule ccontr)
    assume neg: "\<not> (d = 1 \<or> d = n)"
    from d(2) obtain k where k: "n = d * k" ..
    from n k have "0 < d * k" by simp
    then have kpos: "0 < k" using d(1) by (rule zero_less_mult_pos)
    from neg k have k1: "k \<noteq> 1" by auto
    from neg d have d2: "2 \<le> d" by simp
    from kpos k1 have k2: "2 \<le> k" by simp
    define i where "i = min d k"
    have i2: "2 \<le> i" using d2 k2 by (simp add: i_def)
    have "i dvd n" using k by (auto simp: i_def min_def)
    moreover have "i * i \<le> d * k"
      using d2 k2 by (intro mult_mono) (simp_all add: i_def)
    then have "i \<le> int (isqrt (nat n))"
      using i2 n k by (simp add: int_le_isqrt_iff)
    ultimately show False using nodiv i2 by (auto simp: dvd_eq_mod_eq_0)
  qed
  with n show "prime_number n" by (simp add: prime_number_def)
next
  assume p: "prime_number n"
  show "\<forall>i\<in>{2..int (isqrt (nat n))}. n mod i \<noteq> 0"
  proof
    fix i assume i: "i \<in> {2..int (isqrt (nat n))}"
    show "n mod i \<noteq> 0"
    proof
      assume "n mod i = 0"
      then have "i dvd n" by (simp add: dvd_eq_mod_eq_0)
      moreover from i have "0 < i" "i \<noteq> 1" by simp_all
      ultimately have "i = n" using p unfolding prime_number_def by blast
      moreover from i n have "i * i \<le> n"
        using int_le_isqrt_iff [of i n] by simp
      ultimately have "n * n \<le> n * 1" by simp
      then have "n \<le> 1" using n by simp
      with n show False by simp
    qed
  qed
qed

text \<open>
  A bound that is at least the integer square root and below the candidate decides
  primality as the integer square root does: the divisors it adds are proper divisors.
\<close>

lemma bound_test:
  assumes n: "2 \<le> n" and r: "0 \<le> r" "n < (r + 1) * (r + 1)" "r < n"
  shows "inner_loop n (py_range 2 (r + 1)) \<longleftrightarrow> prime_number n"
proof -
  have root: "int (isqrt (nat n)) \<le> r"
  proof (rule ccontr)
    assume "\<not> int (isqrt (nat n)) \<le> r"
    then have "r + 1 \<le> int (isqrt (nat n))" by simp
    with r(1) n have "(r + 1) * (r + 1) \<le> n"
      using int_le_isqrt_iff [of "r + 1" n] by simp
    with r(2) show False by simp
  qed
  have "inner_loop n (py_range 2 (r + 1)) \<longleftrightarrow> (\<forall>i\<in>{2..r}. n mod i \<noteq> 0)"
    by (simp add: inner_loop_iff py_range_def)
  also have "\<dots> \<longleftrightarrow> prime_number n"
  proof
    assume "\<forall>i\<in>{2..r}. n mod i \<noteq> 0"
    with root have "\<forall>i\<in>{2..int (isqrt (nat n))}. n mod i \<noteq> 0" by auto
    with n show "prime_number n" by (simp add: trial_division_prime)
  next
    assume p: "prime_number n"
    show "\<forall>i\<in>{2..r}. n mod i \<noteq> 0"
    proof
      fix i assume i: "i \<in> {2..r}"
      show "n mod i \<noteq> 0"
      proof
        assume "n mod i = 0"
        then have "i dvd n" by (simp add: dvd_eq_mod_eq_0)
        moreover from i have "0 < i" "i \<noteq> 1" by simp_all
        ultimately have "i = n" using p unfolding prime_number_def by blast
        with i r(3) show False by simp
      qed
    qed
  qed
  finally show ?thesis .
qed

lemma isqrt_less_self:
  assumes "2 \<le> n"
  shows "int (isqrt (nat n)) < n"
proof (rule ccontr)
  assume "\<not> int (isqrt (nat n)) < n"
  then have "n \<le> int (isqrt (nat n))" by simp
  with assms have "n * n \<le> n" using int_le_isqrt_iff [of n n] by simp
  then have "n * n \<le> n * 1" by simp
  with assms show False by simp
qed

lemma small_candidate_bound:
  assumes "2 \<le> n" and "n < 2 ^ 53"
  shows "\<exists>r. int_pow_half rnd n = Inr r \<and> 0 \<le> r \<and> n < (r + 1) * (r + 1) \<and> r < n"
proof -
  define t where "t = int (isqrt (nat n))"
  from int_pow_half_small [of n rnd] assms obtain r where
    r: "int_pow_half rnd n = Inr r" "t \<le> r" "r \<le> t + 1" "n < 2 ^ 52 \<longrightarrow> r = t"
    unfolding t_def by auto
  have t0: "0 \<le> t" by (simp add: t_def)
  have "\<not> (t + 1) * (t + 1) \<le> n"
    using int_le_isqrt_iff [of "t + 1" n] assms(1) t0 by (simp add: t_def)
  then have "n < (t + 1) * (t + 1)" by simp
  also have "(t + 1) * (t + 1) \<le> (r + 1) * (r + 1)"
    using r(2) t0 by (intro mult_mono) simp_all
  finally have hi: "n < (r + 1) * (r + 1)" .
  have "r < n"
  proof (cases "n < 2 ^ 52")
    case True
    with r(4) have "r = t" by simp
    with isqrt_less_self [OF assms(1)] show ?thesis by (simp add: t_def)
  next
    case False
    from assms(2) have "nat n < 2 ^ (2 * 27)" by (simp add: nat_less_iff)
    then have "isqrt (nat n) < 2 ^ 27" by (rule isqrt_less_pow2)
    then have "t < 2 ^ 27" by (simp add: t_def)
    with r(3) False show ?thesis by simp
  qed
  with r(1,2) t0 hi show ?thesis by auto
qed

lemma candidate_test:
  assumes "2 \<le> n" and "n < 2 ^ 52"
  shows "int_pow_half rnd n = Inr (int (isqrt (nat n)))"
    and "inner_loop n (py_range 2 (int (isqrt (nat n)) + 1)) \<longleftrightarrow> prime_number n"
proof -
  from assms show "int_pow_half rnd n = Inr (int (isqrt (nat n)))"
    by (intro int_pow_half_exact) simp_all
  have "inner_loop n (py_range 2 (int (isqrt (nat n)) + 1)) \<longleftrightarrow>
      (\<forall>i\<in>{2..int (isqrt (nat n))}. n mod i \<noteq> 0)"
    by (simp add: inner_loop_iff py_range_def)
  also have "\<dots> \<longleftrightarrow> prime_number n" using assms(1) by (rule trial_division_prime)
  finally show "inner_loop n (py_range 2 (int (isqrt (nat n)) + 1)) \<longleftrightarrow> prime_number n" .
qed

lemma outer_loop_good:
  assumes "\<forall>n\<in>set nums. 2 \<le> n \<and>
    (\<exists>r. int_pow_half rnd n = Inr r \<and> 0 \<le> r \<and> n < (r + 1) * (r + 1) \<and> r < n)"
  shows "outer_loop rnd nums found = Inr (found @ filter prime_number nums)"
  using assms
proof (induction nums arbitrary: found)
  case Nil
  then show ?case by simp
next
  case (Cons n nums)
  from Cons.prems obtain r where n: "2 \<le> n"
    and r: "int_pow_half rnd n = Inr r" "0 \<le> r" "n < (r + 1) * (r + 1)" "r < n" by auto
  from Cons.prems have rest: "\<forall>n\<in>set nums. 2 \<le> n \<and>
    (\<exists>r. int_pow_half rnd n = Inr r \<and> 0 \<le> r \<and> n < (r + 1) * (r + 1) \<and> r < n)" by simp
  show ?case
    by (simp add: r(1) bound_test [OF n r(2,3,4)] Cons.IH [OF rest])
qed

lemma find_primes_good:
  assumes "\<forall>n. 2 \<le> n \<and> n < limit \<longrightarrow>
    (\<exists>r. int_pow_half rnd n = Inr r \<and> 0 \<le> r \<and> n < (r + 1) * (r + 1) \<and> r < n)"
  shows "find_primes rnd limit = Inr (filter prime_number (py_range 2 limit))"
proof -
  have "\<forall>n\<in>set (py_range 2 limit). 2 \<le> n \<and>
      (\<exists>r. int_pow_half rnd n = Inr r \<and> 0 \<le> r \<and> n < (r + 1) * (r + 1) \<and> r < n)"
    using assms by (simp add: set_py_range)
  then have "outer_loop rnd (py_range 2 limit) [] =
      Inr ([] @ filter prime_number (py_range 2 limit))"
    by (rule outer_loop_good)
  then show ?thesis by (simp add: find_primes_def)
qed

lemma find_primes_filter:
  assumes "limit \<le> 2 ^ 53"
  shows "find_primes rnd limit = Inr (filter prime_number (py_range 2 limit))"
proof (rule find_primes_good, intro allI impI)
  fix n assume "2 \<le> n \<and> n < limit"
  with assms have "2 \<le> n" "n < 2 ^ 53" by simp_all
  then show "\<exists>r. int_pow_half rnd n = Inr r \<and> 0 \<le> r \<and> n < (r + 1) * (r + 1) \<and> r < n"
    by (rule small_candidate_bound)
qed

subsection \<open>Integers too large for a double\<close>

lemma bit_length_gt: "2 ^ k \<le> n \<Longrightarrow> k < bit_length n"
proof (induction k arbitrary: n)
  case 0
  then have "n \<noteq> 0" by auto
  then show ?case by (subst bit_length.simps) simp
next
  case (Suc k)
  have "0 < (2::nat) ^ Suc k" by simp
  with Suc.prems have n: "n \<noteq> 0" by linarith
  from Suc.prems have "2 ^ k \<le> n div 2" by simp
  then have "k < bit_length (n div 2)" by (rule Suc.IH)
  with n show ?case by (subst bit_length.simps) simp
qed

lemma bit_length_eq:
  assumes "2 ^ k \<le> n" and "n < 2 ^ Suc k"
  shows "bit_length n = Suc k"
  using bit_length_gt [OF assms(1)] bit_length_le [OF assms(2)] by simp

lemma bit_length_lower: "0 < n \<Longrightarrow> 2 ^ (bit_length n - 1) \<le> n"
proof (induction n rule: bit_length.induct)
  case (1 n)
  then have n: "n \<noteq> 0" by simp
  then have eq: "bit_length n = bit_length (n div 2) + 1" by (subst bit_length.simps) simp
  show ?case
  proof (cases "n div 2 = 0")
    case True
    then have "bit_length (n div 2) = 0" by (simp add: bit_length.simps)
    with eq 1(2) show ?thesis by simp
  next
    case False
    then have half: "0 < n div 2" by simp
    then have "0 < bit_length (n div 2)" using bit_length_gt [of 0 "n div 2"] by simp
    then have "bit_length (n div 2) = Suc (bit_length (n div 2) - 1)" by simp
    then have "(2::nat) ^ bit_length (n div 2) = 2 * 2 ^ (bit_length (n div 2) - 1)"
      by (metis power_Suc)
    also have "\<dots> \<le> 2 * (n div 2)" using "1.IH" [OF n half] by simp
    also have "\<dots> \<le> n" by simp
    finally show ?thesis by (simp add: eq)
  qed
qed

lemma round_half_even_ge: "a div 2 ^ sh \<le> round_half_even a sh"
  by (simp add: round_half_even_def Let_def)

lemma float_of_int_overflow:
  assumes "2 ^ 1024 \<le> n"
  shows "float_of_int n = Inl OverflowError"
proof -
  define a where "a = nat \<bar>n\<bar>"
  define b where "b = bit_length a"
  define sh where "sh = b - 53"
  from assms have a: "2 ^ 1024 \<le> a" by (simp add: a_def le_nat_iff)
  then have b: "1024 < b" unfolding b_def by (rule bit_length_gt)
  from a have "0 < a" by (simp add: less_le_trans [of 0 "2 ^ 1024"])
  then have "2 ^ (b - 1) \<le> a" unfolding b_def by (rule bit_length_lower)
  moreover from b have "b - 1 = 52 + sh" by (simp add: sh_def)
  ultimately have "2 ^ 52 * 2 ^ sh \<le> a" by (simp add: power_add)
  then have "2 ^ 52 \<le> a div 2 ^ sh" by (simp add: less_eq_div_iff_mult_less_eq)
  also have "\<dots> \<le> round_half_even a sh" by (rule round_half_even_ge)
  finally have "2 ^ 52 * 2 ^ sh \<le> round_half_even a sh * 2 ^ sh" by (rule mult_le_mono1)
  then have "2 ^ (52 + sh) \<le> round_half_even a sh * 2 ^ sh" by (simp only: power_add)
  moreover from b have "(2::nat) ^ 1024 \<le> 2 ^ (52 + sh)"
    by (intro power_increasing) (simp_all add: sh_def)
  ultimately have "2 ^ 1024 \<le> round_half_even a sh * 2 ^ sh" by (rule order_trans [rotated])
  then show ?thesis
    by (simp add: float_of_int_def Let_def a_def [symmetric] b_def [symmetric] sh_def [symmetric])
qed

lemma int_pow_half_overflow: "2 ^ 1024 \<le> n \<Longrightarrow> int_pow_half rnd n = Inl OverflowError"
  by (simp add: int_pow_half_def float_of_int_overflow)

lemma float_of_int_error: "float_of_int n \<noteq> Inl TypeError"
  by (simp add: float_of_int_def Let_def)

lemma float_of_int_sign: "float_of_int n = Inr x \<Longrightarrow> negative x = (n < 0)"
  by (auto simp: float_of_int_def Let_def split: if_splits)

lemma float_pow_half_None: "float_pow_half rnd x = None \<Longrightarrow> negative x"
  by (auto simp: float_pow_half_def Let_def split: if_splits)

lemma int_pow_half_no_TypeError: "0 \<le> n \<Longrightarrow> int_pow_half rnd n \<noteq> Inl TypeError"
proof
  assume n: "0 \<le> n" and e: "int_pow_half rnd n = Inl TypeError"
  from e float_of_int_error [of n]
  obtain x where x: "float_of_int n = Inr x" and "float_pow_half rnd x = None"
    by (auto simp: int_pow_half_def split: sum.splits option.splits)
  then have "negative x" by (intro float_pow_half_None)
  with float_of_int_sign [OF x] n show False by simp
qed

subsection \<open>The table of small primes\<close>

lemma ascending_sorted: "ascending ps \<Longrightarrow> sorted_wrt (<) ps"
proof (induction ps rule: ascending.induct)
  case 1
  then show ?case by simp
next
  case (2 p)
  then show ?case by simp
next
  case (3 p q ps)
  from "3.prems" have pq: "p < q" and rest: "ascending (q # ps)" by (simp_all split: if_splits)
  from "3.IH" [OF pq rest] have s: "sorted_wrt (<) (q # ps)" .
  then have "\<forall>y\<in>set ps. q < y" by simp
  with pq have "\<forall>y\<in>set (q # ps). p < y" by auto
  with s show ?case by simp
qed

lemma has_factor_in_iff: "has_factor_in n ps \<longleftrightarrow> (\<exists>p\<in>set ps. p dvd n)"
  by (induction ps) (auto simp: dvd_eq_mod_eq_0)

lemma all_have_factor_iff: "all_have_factor ns ps \<longleftrightarrow> (\<forall>n\<in>set ns. \<exists>p\<in>set ps. p dvd n)"
  by (induction ns) (auto simp: has_factor_in_iff)

lemma no_factor_in_iff:
  assumes "sorted_wrt (<) ps" and "\<forall>p\<in>set ps. 0 < p"
  shows "no_factor_in n ps \<longleftrightarrow> (\<forall>q\<in>set ps. \<not> (q * q \<le> n \<and> q dvd n))"
  using assms
proof (induction ps)
  case Nil
  then show ?case by simp
next
  case (Cons p ps)
  from Cons.prems have p: "0 < p" and above: "\<forall>q\<in>set ps. p < q"
    and rest: "sorted_wrt (<) ps" "\<forall>p\<in>set ps. 0 < p" by simp_all
  note IH = Cons.IH [OF rest]
  show ?case
  proof (cases "n < p * p")
    case True
    have "n < q * q" if "q \<in> set (p # ps)" for q
    proof -
      from that above have "p \<le> q" by auto
      with p have "p * p \<le> q * q" by (intro mult_mono) simp_all
      with True show ?thesis by simp
    qed
    then have "\<forall>q\<in>set (p # ps). \<not> (q * q \<le> n \<and> q dvd n)" by (simp add: not_le)
    with True show ?thesis by simp
  next
    case False
    then show ?thesis using IH by (auto simp: dvd_eq_mod_eq_0)
  qed
qed

lemma all_no_factor_iff: "all_no_factor ns ps \<longleftrightarrow> (\<forall>n\<in>set ns. no_factor_in n ps)"
  by (induction ns) auto

lemma small_primes_ascending: "ascending small_primes"
  by (simp add: small_primes_def)

lemma small_primes_bounds: "\<forall>p\<in>set small_primes. 2 \<le> p \<and> p \<le> 223"
  by (simp add: small_primes_def)

lemma small_primes_cover_eval: "all_have_factor [2..226] small_primes"
  by code_simp

lemma small_primes_self_eval: "all_no_factor small_primes small_primes"
  by code_simp

lemma small_primes_length: "length small_primes = 48"
  by (simp add: small_primes_def)

lemma small_primes_sorted: "sorted_wrt (<) small_primes"
  using small_primes_ascending by (rule ascending_sorted)

lemma small_primes_cover:
  assumes "2 \<le> i" and "i \<le> 226"
  shows "\<exists>p\<in>set small_primes. p dvd i"
proof -
  from assms have "i \<in> set [2..226]" by (simp only: set_upto atLeastAtMost_iff simp_thms)
  with small_primes_cover_eval show ?thesis
    unfolding all_have_factor_iff by blast
qed

lemma no_square_divisor_iff:
  assumes "2 \<le> n"
  shows "prime_number n \<longleftrightarrow> (\<forall>i. 2 \<le> i \<and> i * i \<le> n \<longrightarrow> \<not> i dvd n)"
proof -
  have "prime_number n \<longleftrightarrow> (\<forall>i\<in>{2..int (isqrt (nat n))}. n mod i \<noteq> 0)"
    using assms by (rule trial_division_prime [symmetric])
  also have "\<dots> \<longleftrightarrow> (\<forall>i. 2 \<le> i \<and> i * i \<le> n \<longrightarrow> \<not> i dvd n)"
  proof -
    have "i \<le> int (isqrt (nat n)) \<longleftrightarrow> i * i \<le> n" if "2 \<le> i" for i
      using that assms by (intro int_le_isqrt_iff) simp_all
    then show ?thesis by (auto simp: dvd_eq_mod_eq_0)
  qed
  finally show ?thesis .
qed

lemma prime_number_small:
  assumes "2 \<le> n" and "n < 51529"
  shows "prime_number n \<longleftrightarrow> no_factor_in n small_primes"
proof -
  have pos: "\<forall>p\<in>set small_primes. 0 < p" using small_primes_bounds by auto
  have "no_factor_in n small_primes \<longleftrightarrow> (\<forall>q\<in>set small_primes. \<not> (q * q \<le> n \<and> q dvd n))"
    using small_primes_sorted pos by (rule no_factor_in_iff)
  also have "\<dots> \<longleftrightarrow> (\<forall>i. 2 \<le> i \<and> i * i \<le> n \<longrightarrow> \<not> i dvd n)"
  proof
    assume a: "\<forall>i. 2 \<le> i \<and> i * i \<le> n \<longrightarrow> \<not> i dvd n"
    show "\<forall>q\<in>set small_primes. \<not> (q * q \<le> n \<and> q dvd n)"
      using a small_primes_bounds by blast
  next
    assume a: "\<forall>q\<in>set small_primes. \<not> (q * q \<le> n \<and> q dvd n)"
    show "\<forall>i. 2 \<le> i \<and> i * i \<le> n \<longrightarrow> \<not> i dvd n"
    proof (intro allI impI notI)
      fix i assume i: "2 \<le> i \<and> i * i \<le> n" and d: "i dvd n"
      have "i \<le> 226"
      proof (rule ccontr)
        assume "\<not> i \<le> 226"
        then have "227 \<le> i" by simp
        then have "227 * 227 \<le> i * i" by (intro mult_mono) simp_all
        with i assms(2) show False by simp
      qed
      with i obtain q where q: "q \<in> set small_primes" "q dvd i"
        using small_primes_cover [of i] by blast
      from q(1) small_primes_bounds have q2: "2 \<le> q" by blast
      from q(2) i have "q \<le> i" by (intro zdvd_imp_le) simp_all
      with q2 have "q * q \<le> i * i" by (intro mult_mono) simp_all
      with i have "q * q \<le> n" by simp
      moreover from q(2) d have "q dvd n" by (rule dvd_trans)
      ultimately show False using a q(1) by blast
    qed
  qed
  also have "\<dots> \<longleftrightarrow> prime_number n"
    using assms(1) by (rule no_square_divisor_iff [symmetric])
  finally show ?thesis by simp
qed

lemma small_primes_prime: "p \<in> set small_primes \<Longrightarrow> prime_number p"
proof -
  assume p: "p \<in> set small_primes"
  with small_primes_bounds have b: "2 \<le> p" "p < 51529" by auto
  from small_primes_self_eval p have "no_factor_in p small_primes"
    unfolding all_no_factor_iff by blast
  with prime_number_small [OF b] show ?thesis by simp
qed

lemma small_primes_complete:
  assumes "prime_number p" and "p \<le> 223"
  shows "p \<in> set small_primes"
proof -
  from assms(1) have p2: "2 \<le> p" by (simp add: prime_number_def)
  with assms(2) obtain q where q: "q \<in> set small_primes" "q dvd p"
    using small_primes_cover [of p] by auto
  from q(1) small_primes_bounds have "2 \<le> q" by blast
  then have "0 < q" "q \<noteq> 1" by simp_all
  with q(2) assms(1) have "q = p" unfolding prime_number_def by blast
  with q(1) show ?thesis by simp
qed

lemma primes_coprime:
  assumes "prime_number p" and "prime_number q" and "p \<noteq> q"
  shows "coprime p q"
proof -
  define g where "g = gcd p q"
  from assms(1) have "p \<noteq> 0" by (auto simp: prime_number_def)
  then have "0 < g" by (simp add: g_def)
  moreover have "g dvd p" "g dvd q" by (simp_all add: g_def)
  ultimately have "g = 1 \<or> g = p" and "g = 1 \<or> g = q"
    using assms(1,2) unfolding prime_number_def by blast+
  with assms(3) have "g = 1" by auto
  then show ?thesis by (simp add: g_def coprime_iff_gcd_eq_1)
qed

subsection \<open>Legendre's count\<close>

lemma finite_unsieved: "finite (unsieved x ps)"
proof -
  have "unsieved x ps \<subseteq> {1..x}" by (auto simp: unsieved_def)
  then show ?thesis by (rule finite_subset) simp
qed

lemma unsieved_Nil: "unsieved x [] = {1..x}"
  by (auto simp: unsieved_def)

lemma unsieved_below:
  assumes "\<forall>q\<in>set ps. x < q"
  shows "unsieved x ps = {1..x}"
proof -
  have "\<not> q dvd n" if "q \<in> set ps" "1 \<le> n" "n \<le> x" for q n
  proof -
    from that assms have "n < q" by auto
    with that(2) show ?thesis by (simp add: zdvd_not_zless)
  qed
  then show ?thesis by (auto simp: unsieved_def)
qed

lemma int_mult_le_iff_div:
  fixes p m x :: int
  assumes "0 < p"
  shows "p * m \<le> x \<longleftrightarrow> m \<le> x div p"
proof
  assume "p * m \<le> x"
  then have "(p * m) div p \<le> x div p" using assms by (rule zdiv_mono1)
  with assms show "m \<le> x div p" by simp
next
  assume "m \<le> x div p"
  then have "p * m \<le> p * (x div p)" using assms by (simp add: mult_left_mono)
  also have "p * (x div p) + x mod p = x" by (rule mult_div_mod_eq)
  then have "p * (x div p) \<le> x" using pos_mod_sign [OF assms, of x] by linarith
  finally show "p * m \<le> x" .
qed

lemma unsieved_Cons:
  assumes p: "0 < p" and co: "\<forall>q\<in>set ps. coprime q p"
  shows "unsieved x ps = unsieved x (p # ps) \<union> (\<lambda>m. p * m) ` unsieved (x div p) ps"
    and "unsieved x (p # ps) \<inter> (\<lambda>m. p * m) ` unsieved (x div p) ps = {}"
proof -
  have mult: "p * m \<in> unsieved x ps \<longleftrightarrow> m \<in> unsieved (x div p) ps" for m
  proof -
    have "q dvd p * m \<longleftrightarrow> q dvd m" if "q \<in> set ps" for q
      using that co by (simp add: coprime_dvd_mult_right_iff)
    moreover have "1 \<le> p * m \<longleftrightarrow> 1 \<le> m"
      using p by (metis int_one_le_iff_zero_less leI less_le_not_le mult_le_0_iff)
    moreover have "p * m \<le> x \<longleftrightarrow> m \<le> x div p"
      using p by (rule int_mult_le_iff_div)
    ultimately show ?thesis by (simp add: unsieved_def)
  qed
  show "unsieved x ps = unsieved x (p # ps) \<union> (\<lambda>m. p * m) ` unsieved (x div p) ps"
  proof (intro set_eqI iffI)
    fix n assume n: "n \<in> unsieved x ps"
    show "n \<in> unsieved x (p # ps) \<union> (\<lambda>m. p * m) ` unsieved (x div p) ps"
    proof (cases "p dvd n")
      case True
      then obtain m where m: "n = p * m" ..
      with n mult have "m \<in> unsieved (x div p) ps" by simp
      with m show ?thesis by blast
    next
      case False
      with n show ?thesis by (simp add: unsieved_def)
    qed
  next
    fix n assume "n \<in> unsieved x (p # ps) \<union> (\<lambda>m. p * m) ` unsieved (x div p) ps"
    then show "n \<in> unsieved x ps"
    proof
      assume "n \<in> unsieved x (p # ps)"
      then show ?thesis by (simp add: unsieved_def)
    next
      assume "n \<in> (\<lambda>m. p * m) ` unsieved (x div p) ps"
      with mult show ?thesis by auto
    qed
  qed
  show "unsieved x (p # ps) \<inter> (\<lambda>m. p * m) ` unsieved (x div p) ps = {}"
    by (auto simp: unsieved_def)
qed

lemma phi_card:
  assumes "sorted_wrt (<) ps" and "\<forall>p\<in>set ps. prime_number p" and "0 \<le> x"
  shows "phi x ps = int (card (unsieved x ps))"
  using assms
proof (induction x ps rule: phi.induct)
  case (1 x)
  then show ?case by (simp add: unsieved_Nil)
next
  case (2 x p ps)
  from "2.prems" have above: "\<forall>q\<in>set ps. p < q" and sorted: "sorted_wrt (<) ps"
    and prime_p: "prime_number p" and primes: "\<forall>q\<in>set ps. prime_number q" by simp_all
  from prime_p have p: "0 < p" by (simp add: prime_number_def)
  show ?case
  proof (cases "x < p")
    case True
    with above have "\<forall>q\<in>set (p # ps). x < q" by auto
    then have "unsieved x (p # ps) = {1..x}" by (rule unsieved_below)
    with True "2.prems"(3) show ?thesis by simp
  next
    case False
    have co: "\<forall>q\<in>set ps. coprime q p"
    proof
      fix q assume q: "q \<in> set ps"
      with above have "q \<noteq> p" by auto
      with primes q prime_p show "coprime q p" by (intro primes_coprime) simp_all
    qed
    from p "2.prems"(3) have x': "0 \<le> x div p" by (simp add: pos_imp_zdiv_nonneg_iff)
    have a: "phi x ps = int (card (unsieved x ps))"
      using False sorted primes "2.prems"(3) by (rule "2.IH"(1))
    have b: "phi (x div p) ps = int (card (unsieved (x div p) ps))"
      using False sorted primes x' by (rule "2.IH"(2))
    have inj: "inj_on (\<lambda>m. p * m) (unsieved (x div p) ps)"
      using p by (auto intro: inj_onI)
    have "card (unsieved x ps) =
        card (unsieved x (p # ps)) + card ((\<lambda>m. p * m) ` unsieved (x div p) ps)"
      unfolding unsieved_Cons(1) [OF p co, of x]
      by (intro card_Un_disjoint finite_unsieved finite_imageI unsieved_Cons(2) [OF p co])
    also have "card ((\<lambda>m. p * m) ` unsieved (x div p) ps) = card (unsieved (x div p) ps)"
      using inj by (rule card_image)
    finally have "int (card (unsieved x (p # ps))) =
        int (card (unsieved x ps)) - int (card (unsieved (x div p) ps))" by simp
    with a b False show ?thesis by simp
  qed
qed

lemma unsieved_small_primes:
  assumes "1 \<le> x" and "x < 51529"
  shows "unsieved x small_primes = insert 1 {p. prime_number p \<and> 223 < p \<and> p \<le> x}"
proof (intro set_eqI iffI)
  fix n assume n: "n \<in> unsieved x small_primes"
  then have bounds: "1 \<le> n" "n \<le> x" and free: "\<forall>q\<in>set small_primes. \<not> q dvd n"
    by (simp_all add: unsieved_def)
  show "n \<in> insert 1 {p. prime_number p \<and> 223 < p \<and> p \<le> x}"
  proof (cases "n = 1")
    case True
    then show ?thesis by simp
  next
    case False
    with bounds have n2: "2 \<le> n" by simp
    from bounds assms have n_small: "n < 51529" by simp
    have pos: "\<forall>p\<in>set small_primes. 0 < p" using small_primes_bounds by auto
    from free have "\<forall>q\<in>set small_primes. \<not> (q * q \<le> n \<and> q dvd n)" by blast
    then have "no_factor_in n small_primes"
      using no_factor_in_iff [OF small_primes_sorted pos] by blast
    with prime_number_small [OF n2 n_small] have pr: "prime_number n" by simp
    have "223 < n"
    proof (rule ccontr)
      assume "\<not> 223 < n"
      with pr have "n \<in> set small_primes" by (intro small_primes_complete) simp_all
      with free show False by auto
    qed
    with pr bounds show ?thesis by simp
  qed
next
  fix n assume "n \<in> insert 1 {p. prime_number p \<and> 223 < p \<and> p \<le> x}"
  then consider "n = 1" | "prime_number n" "223 < n" "n \<le> x" by auto
  then show "n \<in> unsieved x small_primes"
  proof cases
    case 1
    have "\<not> q dvd 1" if "q \<in> set small_primes" for q
    proof -
      from that small_primes_bounds have "2 \<le> q" by blast
      then show ?thesis by (simp add: zdvd1_eq)
    qed
    with 1 assms show ?thesis by (simp add: unsieved_def)
  next
    case 2
    have "\<not> q dvd n" if "q \<in> set small_primes" for q
    proof
      assume d: "q dvd n"
      from that small_primes_bounds have q: "2 \<le> q" "q \<le> 223" by blast+
      then have "0 < q" "q \<noteq> 1" by simp_all
      with d 2(1) have "q = n" unfolding prime_number_def by blast
      with q 2(2) show False by simp
    qed
    with 2 show ?thesis by (simp add: unsieved_def)
  qed
qed

lemma small_primes_set: "set small_primes = {p. prime_number p \<and> p \<le> 223}"
  using small_primes_prime small_primes_complete small_primes_bounds by blast

lemma prime_count:
  assumes "223 \<le> x" and "x < 51529"
  shows "int (card {p. prime_number p \<and> p \<le> x}) = phi x small_primes + 47"
proof -
  define big where "big = {p. prime_number p \<and> 223 < p \<and> p \<le> x}"
  have fin_big: "finite big"
  proof -
    have "big \<subseteq> {1..x}" by (auto simp: big_def)
    then show ?thesis by (rule finite_subset) simp
  qed
  have one: "1 \<notin> big" by (simp add: big_def)
  from assms have "unsieved x small_primes = insert 1 big"
    unfolding big_def by (intro unsieved_small_primes) simp_all
  then have "card (unsieved x small_primes) = card big + 1"
    using fin_big one by simp
  moreover have "phi x small_primes = int (card (unsieved x small_primes))"
    using small_primes_sorted small_primes_prime assms(1) by (intro phi_card) simp_all
  ultimately have big_card: "int (card big) = phi x small_primes - 1" by simp
  have split: "{p. prime_number p \<and> p \<le> x} = set small_primes \<union> big"
    using assms(1) by (auto simp: small_primes_set big_def)
  have disj: "set small_primes \<inter> big = {}"
    by (auto simp: small_primes_set big_def)
  have "distinct small_primes"
    using small_primes_sorted by (simp add: strict_sorted_iff)
  then have "card (set small_primes) = 48"
    by (simp add: distinct_card small_primes_length)
  then have "card {p. prime_number p \<and> p \<le> x} = 48 + card big"
    unfolding split using fin_big disj by (simp add: card_Un_disjoint)
  with big_card show ?thesis by simp
qed

lemma phi_49999: "phi 49999 small_primes = 5086"
  by code_simp

lemma length_filter_prime:
  "int (length (filter prime_number (py_range 2 limit))) =
     int (card {p. prime_number p \<and> p < limit})"
proof -
  have "distinct (filter prime_number (py_range 2 limit))" by (simp add: py_range_def)
  then have "card (set (filter prime_number (py_range 2 limit))) =
      length (filter prime_number (py_range 2 limit))"
    by (rule distinct_card)
  moreover have "set (filter prime_number (py_range 2 limit)) = {p. prime_number p \<and> p < limit}"
    by (auto simp: prime_number_def set_py_range)
  ultimately show ?thesis by simp
qed

lemma prime_list_count:
  assumes "224 \<le> limit" and "limit \<le> 51529"
  shows "int (length (filter prime_number (py_range 2 limit))) = phi (limit - 1) small_primes + 47"
proof -
  have "{p. prime_number p \<and> p < limit} = {p. prime_number p \<and> p \<le> limit - 1}" by auto
  moreover have "int (card {p. prime_number p \<and> p \<le> limit - 1}) =
      phi (limit - 1) small_primes + 47"
    using assms by (intro prime_count) simp_all
  ultimately show ?thesis by (simp add: length_filter_prime)
qed

lemma find_primes_50000: "\<exists>found. find_primes rnd 50000 = Inr found \<and> length found = 5133"
proof -
  have "find_primes rnd 50000 = Inr (filter prime_number (py_range 2 50000))"
    by (rule find_primes_filter) simp
  moreover have "int (length (filter prime_number (py_range 2 50000))) = 5133"
    using prime_list_count [of 50000] phi_49999 by simp
  ultimately show ?thesis by simp
qed


subsection \<open>Two candidates whose bound is not the integer square root\<close>

text \<open>
  The candidate \<open>(2 ^ 53 + 1)\<^sup>2\<close>: its root \<open>2 ^ 53 + 1\<close> lies between the doubles
  \<open>2 ^ 53\<close> and \<open>2 ^ 53 + 2\<close>, and the bound is one of these two, whatever the rounding.
\<close>

lemma bit_length_107: "bit_length 81129638414606699710187514626049 = 107"
proof -
  have "bit_length 81129638414606699710187514626049 = Suc 106"
    by (rule bit_length_eq) simp_all
  then show ?thesis by simp
qed

lemma bit_length_53: "bit_length 4503599627370497 = 53"
proof -
  have "bit_length 4503599627370497 = Suc 52"
    by (rule bit_length_eq) simp_all
  then show ?thesis by simp
qed

lemma isqrt_scaled_large: "isqrt 20282409603651674927546878656512 = 4503599627370496"
  by (rule isqrt_unique) simp_all

lemma float_of_int_large: "float_of_int 81129638414606699710187514626049 =
    Inr \<lparr>negative = False, mant = 4503599627370497, expo = 54\<rparr>"
  by (simp add: float_of_int_def Let_def bit_length_107 round_half_even_def)

lemma int_pow_half_large:
  "int_pow_half rnd 81129638414606699710187514626049 =
     Inr (if rnd \<lparr>negative = False, mant = 4503599627370497, expo = 54\<rparr>
          then 9007199254740994 else 9007199254740992)"
  by (simp add: int_pow_half_def float_of_int_large float_pow_half_def Let_def bit_length_53
      isqrt_scaled_large int_of_float_def)

text \<open>
  The candidate \<open>2 ^ 52 + 2 ^ 27\<close>, which is \<open>(2 ^ 26 + 1)\<^sup>2 - 1\<close>: its root is less than
  half a unit in the last place below \<open>2 ^ 26 + 1\<close>, and rounding to nearest gives
  \<open>2 ^ 26 + 1\<close>, one more than the integer square root.
\<close>

lemma bit_length_boundary: "bit_length 4503599761588224 = 53"
proof -
  have "bit_length 4503599761588224 = Suc 52"
    by (rule bit_length_eq) simp_all
  then show ?thesis by simp
qed

lemma isqrt_scaled_boundary: "isqrt 20282410208114580231261838639104 = 4503599694479359"
  by (rule isqrt_unique) simp_all

lemma float_of_int_boundary: "float_of_int 4503599761588224 =
    Inr \<lparr>negative = False, mant = 4503599761588224, expo = 0\<rparr>"
  using float_of_int_exact [of 4503599761588224] by simp

lemma round_to_nearest_boundary:
  "round_to_nearest \<lparr>negative = False, mant = 4503599761588224, expo = 0\<rparr>"
  by (simp add: round_to_nearest_def Let_def bit_length_boundary isqrt_scaled_boundary)

lemma int_pow_half_boundary:
  "int_pow_half round_to_nearest 4503599761588224 = Inr 67108865"
  by (simp add: int_pow_half_def float_of_int_boundary float_pow_half_def Let_def
      bit_length_boundary isqrt_scaled_boundary round_to_nearest_boundary int_of_float_def)


subsection \<open>Overflow, prefixes and the first primes\<close>

lemma outer_loop_overflow:
  assumes "\<forall>n\<in>set nums. 0 \<le> n" and "\<exists>n\<in>set nums. int_pow_half rnd n = Inl OverflowError"
  shows "outer_loop rnd nums found = Inl OverflowError"
  using assms
proof (induction nums arbitrary: found)
  case Nil
  then show ?case by simp
next
  case (Cons n nums)
  from Cons.prems(1) have n: "0 \<le> n" and rest: "\<forall>n\<in>set nums. 0 \<le> n" by simp_all
  show ?case
  proof (cases "int_pow_half rnd n")
    case (Inl e)
    with int_pow_half_no_TypeError [OF n] have "e = OverflowError" by (cases e) simp_all
    with Inl show ?thesis by simp
  next
    case (Inr r)
    with Cons.prems(2) have "\<exists>n\<in>set nums. int_pow_half rnd n = Inl OverflowError" by auto
    with rest have "outer_loop rnd nums (if inner_loop n (py_range 2 (r + 1)) then found @ [n] else found)
        = Inl OverflowError" by (rule Cons.IH)
    with Inr show ?thesis by simp
  qed
qed

lemma find_primes_overflow:
  assumes "2 ^ 1024 < limit"
  shows "find_primes rnd limit = Inl OverflowError"
proof -
  have "\<forall>n\<in>set (py_range 2 limit). 0 \<le> n" by (auto simp: set_py_range)
  moreover have "(2 ^ 1024 :: int) \<in> set (py_range 2 limit)"
    using assms by (simp add: set_py_range)
  then have "\<exists>n\<in>set (py_range 2 limit). int_pow_half rnd n = Inl OverflowError"
    using int_pow_half_overflow [of "2 ^ 1024"] by (intro bexI [of _ "2 ^ 1024"]) simp_all
  ultimately show ?thesis unfolding find_primes_def by (rule outer_loop_overflow)
qed

lemma primes_below_10: "filter prime_number (py_range 2 10) = [2, 3, 5, 7]"
  by (simp add: py_range_def upto_rec1 prime_number_small small_primes_def)

lemma find_primes_10: "find_primes rnd 10 = Inr [2, 3, 5, 7]"
  using find_primes_filter [of 10] by (simp add: primes_below_10)

lemma outer_loop_append:
  "outer_loop rnd (xs @ ys) found =
     (case outer_loop rnd xs found of Inl e \<Rightarrow> Inl e | Inr found' \<Rightarrow> outer_loop rnd ys found')"
  by (induction xs arbitrary: found) (simp_all split: sum.splits)

lemma outer_loop_extends: "outer_loop rnd nums found = Inr found' \<Longrightarrow> prefix found found'"
proof (induction nums arbitrary: found)
  case Nil
  then show ?case by simp
next
  case (Cons n nums)
  from Cons.prems obtain r where r: "int_pow_half rnd n = Inr r"
    by (cases "int_pow_half rnd n") simp_all
  define next_found where
    "next_found = (if inner_loop n (py_range 2 (r + 1)) then found @ [n] else found)"
  from Cons.prems r have "outer_loop rnd nums next_found = Inr found'"
    by (simp add: next_found_def)
  then have "prefix next_found found'" by (rule Cons.IH)
  moreover have "prefix found next_found" by (simp add: next_found_def)
  ultimately show ?case by (rule prefix_order.trans [rotated])
qed

lemma py_range_split:
  assumes "a \<le> b" and "b \<le> c"
  shows "py_range a c = py_range a b @ py_range b c"
proof (cases "b = c")
  case True
  then show ?thesis by (simp add: py_range_def)
next
  case False
  with assms have "b \<le> c - 1" by simp
  with assms(1) have "[a..c - 1] = [a..b - 1] @ [b..c - 1]" by (rule upto_split1)
  then show ?thesis by (simp add: py_range_def)
qed

lemma find_primes_prefix_general:
  assumes "a \<le> b" and "find_primes rnd b = Inr later"
  shows "\<exists>earlier. find_primes rnd a = Inr earlier \<and> prefix earlier later"
proof (cases "2 \<le> a")
  case False
  then have "find_primes rnd a = Inr []" by (simp add: find_primes_def py_range_def)
  then show ?thesis by simp
next
  case True
  from True assms(1) have "py_range 2 b = py_range 2 a @ py_range a b" by (rule py_range_split)
  with assms(2) have run: "(case outer_loop rnd (py_range 2 a) [] of
      Inl e \<Rightarrow> Inl e | Inr found' \<Rightarrow> outer_loop rnd (py_range a b) found') = Inr later"
    by (simp add: find_primes_def outer_loop_append)
  then obtain earlier where e: "outer_loop rnd (py_range 2 a) [] = Inr earlier"
    by (cases "outer_loop rnd (py_range 2 a) []") simp_all
  with run have "outer_loop rnd (py_range a b) earlier = Inr later" by simp
  then have "prefix earlier later" by (rule outer_loop_extends)
  with e show ?thesis by (simp add: find_primes_def)
qed


subsection \<open>The store: what \<^verbatim>\<open>find_primes\<close> reads and writes\<close>






subsection \<open>Runs of \<^verbatim>\<open>main\<close>\<close>




subsection \<open>Lines of the output\<close>






subsection \<open>Iterations\<close>






section \<open>The claims\<close>

text \<open>
  The theorems hold for every rounding \<open>rnd\<close> of the library's \<^verbatim>\<open>pow\<close>; the closed instances
  take \<open>round_to_nearest\<close>.
\<close>

text \<open>
  Claim C6: for every limit of at most 2, zero and the negative integers included,
  \<^verbatim>\<open>find_primes\<close> returns the empty list and raises nothing.
\<close>

theorem find_primes_empty: "limit \<le> 2 \<Longrightarrow> find_primes rnd limit = Inr []"
  by (simp add: find_primes_def py_range_def)

theorem find_primes_empty_witness:
  "(2::int) \<le> 2 \<and> find_primes round_to_nearest 2 = Inr [] \<and>
    find_primes round_to_nearest 0 = Inr [] \<and> find_primes round_to_nearest (- 7) = Inr []"
  using find_primes_empty [of 2 round_to_nearest] find_primes_empty [of 0 round_to_nearest]
    find_primes_empty [of "- 7" round_to_nearest] by simp

text \<open>
  Claim C1, amended: for every limit from 2 to \<open>2 ^ 53\<close>, and for every larger limit below
  which the bound \<^verbatim>\<open>int(n ** 0.5)\<close> of every candidate \<open>n\<close> is computed, is at least the
  integer square root of \<open>n\<close> and is less than \<open>n\<close>, \<^verbatim>\<open>find_primes\<close> returns the strictly
  increasing list of exactly the primes below the limit.
\<close>

theorem find_primes_correct:
  assumes "2 \<le> limit"
    and "limit \<le> 2 ^ 53 \<or>
      (\<forall>n. 2 \<le> n \<and> n < limit \<longrightarrow>
        (\<exists>r. int_pow_half rnd n = Inr r \<and> 0 \<le> r \<and> n < (r + 1) * (r + 1) \<and> r < n))"
  shows "\<exists>found. find_primes rnd limit = Inr found \<and> sorted_wrt (<) found \<and>
    set found = {p. prime_number p \<and> p < limit}"
proof -
  have "find_primes rnd limit = Inr (filter prime_number (py_range 2 limit))"
    using assms(2)
  proof
    assume "limit \<le> 2 ^ 53"
    then show ?thesis by (rule find_primes_filter)
  next
    assume "\<forall>n. 2 \<le> n \<and> n < limit \<longrightarrow>
      (\<exists>r. int_pow_half rnd n = Inr r \<and> 0 \<le> r \<and> n < (r + 1) * (r + 1) \<and> r < n)"
    then show ?thesis by (rule find_primes_good)
  qed
  moreover have "sorted_wrt (<) (filter prime_number (py_range 2 limit))"
    unfolding py_range_def by (rule sorted_wrt_filter) simp
  moreover have "set (filter prime_number (py_range 2 limit)) = {p. prime_number p \<and> p < limit}"
    by (auto simp: prime_number_def set_py_range)
  ultimately show ?thesis by blast
qed

theorem find_primes_correct_witness:
  "(2::int) \<le> 10 \<and> (10::int) \<le> 2 ^ 53 \<and> find_primes round_to_nearest 10 = Inr [2, 3, 5, 7] \<and>
    {p. prime_number p \<and> p < 10} = {2, 3, 5, 7}"
proof -
  have h: "(2::int) \<le> 10" "(10::int) \<le> 2 ^ 53" by simp_all
  from h(2) have "(10::int) \<le> 2 ^ 53 \<or>
      (\<forall>n. 2 \<le> n \<and> n < 10 \<longrightarrow>
        (\<exists>r. int_pow_half round_to_nearest n = Inr r \<and> 0 \<le> r \<and> n < (r + 1) * (r + 1) \<and> r < n))"
    by (rule disjI1)
  with h(1) have "\<exists>found. find_primes round_to_nearest 10 = Inr found \<and> sorted_wrt (<) found \<and>
      set found = {p. prime_number p \<and> p < 10}"
    by (rule find_primes_correct)
  with find_primes_10 [of round_to_nearest]
  have "{p. prime_number p \<and> p < 10} = set [2, 3, 5, 7]" by auto
  with h find_primes_10 [of round_to_nearest] show ?thesis by simp
qed

text \<open>
  As the claim stands, for every limit of 2 or more, it fails: a limit above \<open>2 ^ 1024\<close>
  brings a candidate that is too large for a double, and the function raises
  \<^verbatim>\<open>OverflowError\<close>. The conversion does not depend on the library's rounding.
\<close>

theorem find_primes_raises_overflow:
  "find_primes round_to_nearest (2 ^ 1024 + 1) = Inl OverflowError"
  by (rule find_primes_overflow) simp

text \<open>
  Claim C2, amended: for every candidate \<open>n\<close> with \<open>2 \<le> n < limit \<le> 2 ^ 52\<close>, the bound
  \<^verbatim>\<open>int(n ** 0.5)\<close> is the integer square root of \<open>n\<close>, the inner loop ranges over exactly
  the divisors from 2 to that root, and \<open>n\<close> is classified as prime (and is in the result)
  iff none of them divides it.
\<close>

theorem candidate_test_exact:
  assumes "2 \<le> n" and "n < limit" and "limit \<le> 2 ^ 52"
  shows "\<exists>r found. int_pow_half rnd n = Inr r \<and> 0 \<le> r \<and> r * r \<le> n \<and> n < (r + 1) * (r + 1) \<and>
    set (py_range 2 (r + 1)) = {d. 2 \<le> d \<and> d * d \<le> n} \<and>
    (inner_loop n (py_range 2 (r + 1)) \<longleftrightarrow> (\<forall>d. 2 \<le> d \<and> d * d \<le> n \<longrightarrow> n mod d \<noteq> 0)) \<and>
    find_primes rnd limit = Inr found \<and>
    (n \<in> set found \<longleftrightarrow> (\<forall>d. 2 \<le> d \<and> d * d \<le> n \<longrightarrow> n mod d \<noteq> 0))"
proof -
  define r where "r = int (isqrt (nat n))"
  from assms have n52: "n < 2 ^ 52" by simp
  have pw: "int_pow_half rnd n = Inr r"
    unfolding r_def using assms(1) n52 by (rule candidate_test(1))
  have r0: "0 \<le> r" by (simp add: r_def)
  have le_r: "d \<le> r \<longleftrightarrow> d * d \<le> n" if "0 \<le> d" for d
    unfolding r_def using that assms(1) by (intro int_le_isqrt_iff) simp_all
  from le_r [of r] r0 have lo: "r * r \<le> n" by simp
  from le_r [of "r + 1"] r0 have hi: "n < (r + 1) * (r + 1)" by simp
  have ds: "set (py_range 2 (r + 1)) = {d. 2 \<le> d \<and> d * d \<le> n}"
    using le_r by (auto simp: set_py_range)
  have test: "inner_loop n (py_range 2 (r + 1)) \<longleftrightarrow> (\<forall>d. 2 \<le> d \<and> d * d \<le> n \<longrightarrow> n mod d \<noteq> 0)"
    by (simp add: inner_loop_iff ds)
  have pr: "prime_number n \<longleftrightarrow> inner_loop n (py_range 2 (r + 1))"
    unfolding r_def using assms(1) n52 by (simp add: candidate_test(2))
  from assms(3) have "limit \<le> 2 ^ 53" by simp
  then have fp: "find_primes rnd limit = Inr (filter prime_number (py_range 2 limit))"
    by (rule find_primes_filter)
  have "n \<in> set (filter prime_number (py_range 2 limit)) \<longleftrightarrow> prime_number n"
    using assms by (simp add: set_py_range)
  with pr test have mem: "n \<in> set (filter prime_number (py_range 2 limit)) \<longleftrightarrow>
      (\<forall>d. 2 \<le> d \<and> d * d \<le> n \<longrightarrow> n mod d \<noteq> 0)" by simp
  from pw r0 lo hi ds test fp mem show ?thesis by (intro exI conjI)
qed

theorem candidate_test_exact_witness:
  "(2::int) \<le> 9 \<and> (9::int) < 10 \<and> (10::int) \<le> 2 ^ 52 \<and>
    (\<exists>r. int_pow_half round_to_nearest 9 = Inr r \<and> r * r \<le> 9 \<and> 9 < (r + 1) * (r + 1) \<and>
      \<not> inner_loop 9 (py_range 2 (r + 1))) \<and>
    (\<exists>found. find_primes round_to_nearest 10 = Inr found \<and> 9 \<notin> set found)"
proof -
  have h: "(2::int) \<le> 9" "(9::int) < 10" "(10::int) \<le> 2 ^ 52" by simp_all
  from candidate_test_exact [OF h, of round_to_nearest]
  obtain r where "\<exists>found. int_pow_half round_to_nearest 9 = Inr r \<and> 0 \<le> r \<and>
    r * r \<le> 9 \<and> 9 < (r + 1) * (r + 1) \<and>
    set (py_range 2 (r + 1)) = {d. 2 \<le> d \<and> d * d \<le> 9} \<and>
    (inner_loop 9 (py_range 2 (r + 1)) \<longleftrightarrow> (\<forall>d. 2 \<le> d \<and> d * d \<le> 9 \<longrightarrow> (9::int) mod d \<noteq> 0)) \<and>
    find_primes round_to_nearest 10 = Inr found \<and>
    (9 \<in> set found \<longleftrightarrow> (\<forall>d. 2 \<le> d \<and> d * d \<le> 9 \<longrightarrow> (9::int) mod d \<noteq> 0))" ..
  then obtain found where c: "int_pow_half round_to_nearest 9 = Inr r \<and> 0 \<le> r \<and>
    r * r \<le> 9 \<and> 9 < (r + 1) * (r + 1) \<and>
    set (py_range 2 (r + 1)) = {d. 2 \<le> d \<and> d * d \<le> 9} \<and>
    (inner_loop 9 (py_range 2 (r + 1)) \<longleftrightarrow> (\<forall>d. 2 \<le> d \<and> d * d \<le> 9 \<longrightarrow> (9::int) mod d \<noteq> 0)) \<and>
    find_primes round_to_nearest 10 = Inr found \<and>
    (9 \<in> set found \<longleftrightarrow> (\<forall>d. 2 \<le> d \<and> d * d \<le> 9 \<longrightarrow> (9::int) mod d \<noteq> 0))" ..
  note pw = c [THEN conjunct1]
  note lo = c [THEN conjunct2, THEN conjunct2, THEN conjunct1]
  note hi = c [THEN conjunct2, THEN conjunct2, THEN conjunct2, THEN conjunct1]
  note loop = c [THEN conjunct2, THEN conjunct2, THEN conjunct2, THEN conjunct2, THEN conjunct2,
    THEN conjunct1]
  note fp = c [THEN conjunct2, THEN conjunct2, THEN conjunct2, THEN conjunct2, THEN conjunct2,
    THEN conjunct2, THEN conjunct1]
  note mem = c [THEN conjunct2, THEN conjunct2, THEN conjunct2, THEN conjunct2, THEN conjunct2,
    THEN conjunct2, THEN conjunct2]
  have three: "(2::int) \<le> 3 \<and> (3::int) * 3 \<le> 9" "(9::int) mod 3 = 0" by simp_all
  have no: "\<not> (\<forall>d. 2 \<le> d \<and> d * d \<le> 9 \<longrightarrow> (9::int) mod d \<noteq> 0)"
  proof
    assume "\<forall>d. 2 \<le> d \<and> d * d \<le> 9 \<longrightarrow> (9::int) mod d \<noteq> 0"
    then have "(2::int) \<le> 3 \<and> (3::int) * 3 \<le> 9 \<longrightarrow> (9::int) mod 3 \<noteq> 0" by (rule spec)
    with three show False by (simp only: simp_thms)
  qed
  from no loop have nl: "\<not> inner_loop 9 (py_range 2 (r + 1))" by (simp only: simp_thms)
  from no mem have nm: "9 \<notin> set found" by (simp only: simp_thms)
  have a: "\<exists>r. int_pow_half round_to_nearest 9 = Inr r \<and> r * r \<le> 9 \<and> 9 < (r + 1) * (r + 1) \<and>
      \<not> inner_loop 9 (py_range 2 (r + 1))"
    using pw lo hi nl by (intro exI [of _ r] conjI)
  have b: "\<exists>found. find_primes round_to_nearest 10 = Inr found \<and> 9 \<notin> set found"
    using fp nm by (intro exI [of _ found] conjI)
  from h a b show ?thesis by (intro conjI)
qed

text \<open>
  As the claim stands, for every candidate, it fails. At \<open>2 ^ 52 + 2 ^ 27\<close>, the first
  candidate past the amended range whose root rounds up to an integer, rounding to nearest
  gives the bound \<open>2 ^ 26 + 1\<close>, whose square is above the candidate. At
  \<open>(2 ^ 53 + 1)\<^sup>2\<close> the root \<open>2 ^ 53 + 1\<close> is no double, and the bound is \<open>2 ^ 53\<close> when
  the library rounds down and \<open>2 ^ 53 + 2\<close> when it rounds up: never the integer square
  root.
\<close>

theorem int_pow_half_not_root:
  "int_pow_half round_to_nearest 4503599761588224 = Inr 67108865 \<and>
    (4503599761588224::int) < 67108865 * 67108865 \<and>
    int_pow_half (\<lambda>x. False) 81129638414606699710187514626049 = Inr 9007199254740992 \<and>
    (9007199254740992 + 1) * (9007199254740992 + 1) \<le> (81129638414606699710187514626049::int) \<and>
    int_pow_half (\<lambda>x. True) 81129638414606699710187514626049 = Inr 9007199254740994 \<and>
    (81129638414606699710187514626049::int) < 9007199254740994 * 9007199254740994"
  by (simp add: int_pow_half_boundary int_pow_half_large)

text \<open>
  Claim C5: \<^verbatim>\<open>find_primes(10)\<close> is the list 2, 3, 5, 7, and \<^verbatim>\<open>find_primes(50000)\<close> has
  5133 elements.
\<close>

theorem find_primes_examples:
  "find_primes rnd 10 = Inr [2, 3, 5, 7] \<and>
    (\<exists>found. find_primes rnd 50000 = Inr found \<and> length found = 5133)"
  using find_primes_10 find_primes_50000 by simp

text \<open>
  Claim C9, amended: for all limits \<open>a \<le> b\<close> for which \<^verbatim>\<open>find_primes(b)\<close> returns a list,
  \<^verbatim>\<open>find_primes(a)\<close> returns a list too, and it is a prefix of that of \<open>b\<close>.
\<close>

theorem find_primes_prefix:
  assumes "a \<le> b" and "find_primes rnd b = Inr later"
  shows "\<exists>earlier. find_primes rnd a = Inr earlier \<and> prefix earlier later"
  using assms by (rule find_primes_prefix_general)

theorem find_primes_prefix_witness:
  "(3::int) \<le> 10 \<and> find_primes round_to_nearest 10 = Inr [2, 3, 5, 7] \<and>
    (\<exists>earlier. find_primes round_to_nearest 3 = Inr earlier \<and> prefix earlier [2, 3, 5, 7])"
proof -
  have "(3::int) \<le> 10" by simp
  then have "\<exists>earlier. find_primes round_to_nearest 3 = Inr earlier \<and> prefix earlier [2, 3, 5, 7]"
    using find_primes_10 [of round_to_nearest] by (rule find_primes_prefix)
  with find_primes_10 [of round_to_nearest] show ?thesis by simp
qed

text \<open>
  As the claim stands, for all \<open>a \<le> b\<close>, it fails: \<^verbatim>\<open>find_primes(3)\<close> returns a list, and
  \<^verbatim>\<open>find_primes(2 ** 1024 + 1)\<close> raises \<^verbatim>\<open>OverflowError\<close> and returns none.
\<close>

theorem find_primes_prefix_overflow:
  "(3::int) \<le> 2 ^ 1024 + 1 \<and> find_primes round_to_nearest 3 = Inr [2] \<and>
    find_primes round_to_nearest (2 ^ 1024 + 1) = Inl OverflowError"
proof -
  have "filter prime_number (py_range 2 3) = [2]"
    by (simp add: py_range_def prime_number_small small_primes_def)
  then have "find_primes round_to_nearest 3 = Inr [2]"
    using find_primes_filter [of 3 round_to_nearest] by simp
  moreover have "find_primes round_to_nearest (2 ^ 1024 + 1) = Inl OverflowError"
    by (rule find_primes_overflow) simp
  ultimately show ?thesis by simp
qed











end
